theory Spec2Isabelle
  imports Complex_Main "HOL-Library.Char_ord" "HOL-Library.List_Lexorder" "HOL-Library.Sublist"
begin

section \<open>JavaScript values used by the lifecycle code\<close>

text \<open>
  Optional string fields (\<^verbatim>\<open>string | null | undefined\<close>) are \<open>string option\<close>.
  A string is truthy in JavaScript when it is present and not empty; \<^verbatim>\<open>a || b\<close> is
  \<open>a\<close> when \<open>a\<close> is truthy and \<open>b\<close> otherwise.
\<close>

definition truthy :: "string option \<Rightarrow> bool" where
  "truthy v = (case v of None \<Rightarrow> False | Some s \<Rightarrow> s \<noteq> [])"

definition js_or :: "string option \<Rightarrow> string option \<Rightarrow> string option" where
  "js_or a b = (if truthy a then a else b)"

text \<open>
  A thrown value: an \<^verbatim>\<open>Error\<close> object with its message, or anything else
  (the handlers test \<^verbatim>\<open>error instanceof Error\<close>).
\<close>

datatype exn = Error string | Thrown_other

section \<open>Conversation records and the status callback endpoint\<close>

text \<open>The four lifecycle states of a conversation (\<^verbatim>\<open>ConversationResponse["status"]\<close>).\<close>

datatype status = Status_idle | Status_running | Status_completed | Status_error

text \<open>
  One row of the conversation table, with the columns the callback route reads and writes
  (\<^verbatim>\<open>id\<close> is \<open>conv_id\<close> here; the timestamps are left out: no code under
  study reads them).
\<close>

record conversation =
  conv_id :: string
  status :: status
  sessionId :: "string option"
  sandboxId :: "string option"
  volumeId :: "string option"
  errorMessage :: "string option"

text \<open>The parsed body of a callback, \<^verbatim>\<open>StatusCallbackRequest\<close>.\<close>

record StatusCallbackRequest =
  req_status :: status
  req_errorMessage :: "string option"
  req_sessionId :: "string option"

text \<open>
  The world the route acts on: the conversation table, and the log of the calls of
  \<^verbatim>\<open>Sandbox.kill\<close> made so far (oldest first).
\<close>

record world =
  rows :: "string \<rightharpoonup> conversation"
  kill_log :: "string list"

text \<open>
  What the external services do during one request: whether the row lookup or the row
  update throws, and for which sandbox identifiers \<^verbatim>\<open>Sandbox.kill\<close> throws.
\<close>

record env =
  find_raises :: "exn option"
  update_raises :: "exn option"
  kill_raises :: "string \<Rightarrow> exn option"

datatype json = Json_success | Json_error string

datatype response = Response json nat

text \<open>\<^verbatim>\<open>prisma.conversation.findUnique({ where: { id } })\<close>\<close>

definition findUnique :: "env \<Rightarrow> string \<Rightarrow> world \<Rightarrow> exn + conversation option" where
  "findUnique e i w = (case find_raises e of Some x \<Rightarrow> Inl x | None \<Rightarrow> Inr (rows w i))"

text \<open>The \<^verbatim>\<open>data\<close> object of the update, lines 33 to 38 of the route.\<close>

record update_data =
  d_status :: status
  d_errorMessage :: "string option"
  d_sessionId :: "string option"
  d_sandboxId :: "string option"

definition callback_data :: "conversation \<Rightarrow> StatusCallbackRequest \<Rightarrow> update_data" where
  "callback_data conv body =
     \<lparr> d_status = req_status body,
       d_errorMessage = js_or (req_errorMessage body) None,
       d_sessionId = js_or (req_sessionId body) (sessionId conv),
       d_sandboxId = None \<rparr>"

text \<open>
  \<^verbatim>\<open>prisma.conversation.update({ where: { id }, data })\<close>: throws when the store
  fails or the row is gone, and otherwise overwrites the four columns of that row.
\<close>

definition prisma_update :: "env \<Rightarrow> string \<Rightarrow> update_data \<Rightarrow> world \<Rightarrow> exn + world" where
  "prisma_update e i d w =
     (case update_raises e of
        Some x \<Rightarrow> Inl x
      | None \<Rightarrow>
          (case rows w i of
             None \<Rightarrow> Inl (Error ''Record to update not found'')
           | Some r \<Rightarrow>
               Inr (w\<lparr>rows := (rows w)(i \<mapsto>
                 r\<lparr>status := d_status d, errorMessage := d_errorMessage d,
                   sessionId := d_sessionId d, sandboxId := d_sandboxId d\<rparr>)\<rparr>)))"

text \<open>\<^verbatim>\<open>Sandbox.kill(sandboxId)\<close> of the provider: the call is logged; it may throw.\<close>

definition Sandbox_kill :: "env \<Rightarrow> string \<Rightarrow> world \<Rightarrow> (exn + unit) \<times> world" where
  "Sandbox_kill e sid w =
     (case kill_raises e sid of
        Some x \<Rightarrow> (Inl x, w\<lparr>kill_log := kill_log w @ [sid]\<rparr>)
      | None \<Rightarrow> (Inr (), w\<lparr>kill_log := kill_log w @ [sid]\<rparr>))"

text \<open>\<^verbatim>\<open>killSandbox\<close> of \<^verbatim>\<open>lib/moru.ts\<close>: the \<^verbatim>\<open>catch\<close> block is empty.\<close>

definition killSandbox :: "env \<Rightarrow> string \<Rightarrow> world \<Rightarrow> (exn + unit) \<times> world" where
  "killSandbox e sid w =
     (case Sandbox_kill e sid w of
        (Inl x, w') \<Rightarrow> (Inr (), w')
      | (Inr u, w') \<Rightarrow> (Inr (), w'))"

text \<open>The outer \<^verbatim>\<open>catch\<close> of the route: a 500 response carrying the message.\<close>

definition catch_500 :: "exn \<Rightarrow> response" where
  "catch_500 x =
     Response (Json_error (case x of Error m \<Rightarrow> m | Thrown_other \<Rightarrow> ''Internal server error'')) 500"

text \<open>
  \<^verbatim>\<open>POST /api/conversations/[id]/status\<close>. The third argument is the outcome of
  \<^verbatim>\<open>await request.json()\<close>: the parsed body, or what parsing threw.
\<close>

definition POST :: "env \<Rightarrow> string \<Rightarrow> exn + StatusCallbackRequest \<Rightarrow> world \<Rightarrow> response \<times> world" where
  "POST e i req w =
     (case req of
        Inl x \<Rightarrow> (catch_500 x, w)
      | Inr body \<Rightarrow>
          (case findUnique e i w of
             Inl x \<Rightarrow> (catch_500 x, w)
           | Inr None \<Rightarrow> (Response (Json_error ''Conversation not found'') 404, w)
           | Inr (Some conv) \<Rightarrow>
               (case prisma_update e i (callback_data conv body) w of
                  Inl x \<Rightarrow> (catch_500 x, w)
                | Inr w1 \<Rightarrow>
                    (if truthy (sandboxId conv) then
                       (case sandboxId conv of
                          None \<Rightarrow> (Response Json_success 200, w1)
                        | Some sid \<Rightarrow>
                            (case killSandbox e sid w1 of
                               (Inl x, w2) \<Rightarrow> (catch_500 x, w2)
                             | (Inr u, w2) \<Rightarrow> (Response Json_success 200, w2)))
                     else (Response Json_success 200, w1)))))"

text \<open>A sequence of callbacks for one conversation, each with its own environment.\<close>

fun POSTs :: "string \<Rightarrow> (env \<times> (exn + StatusCallbackRequest)) list \<Rightarrow> world \<Rightarrow> world" where
  "POSTs i [] w = w"
| "POSTs i ((e, req) # calls) w = POSTs i calls (snd (POST e i req w))"

text \<open>
  The invariant of the specification, in its words: an error record has no sandbox and
  an error message, a completed record has no sandbox and no error message.
\<close>

definition lifecycle_invariant :: "conversation \<Rightarrow> bool" where
  "lifecycle_invariant c =
     ((status c = Status_error \<longrightarrow> sandboxId c = None \<and> errorMessage c \<noteq> None) \<and>
      (status c = Status_completed \<longrightarrow> sandboxId c = None \<and> errorMessage c = None))"

text \<open>Concrete data for the examples.\<close>

definition env_ok :: env where
  "env_ok = \<lparr> find_raises = None, update_raises = None, kill_raises = (\<lambda>sid. None) \<rparr>"

definition env_kill_fails :: env where
  "env_kill_fails =
     \<lparr> find_raises = None, update_raises = None,
       kill_raises = (\<lambda>sid. Some (Error ''sandbox not found'')) \<rparr>"

definition conv_running :: conversation where
  "conv_running =
     \<lparr> conv_id = ''c1'', status = Status_running, sessionId = Some ''s1'',
       sandboxId = Some ''sb1'', volumeId = Some ''v1'', errorMessage = None \<rparr>"

definition world_running :: world where
  "world_running = \<lparr> rows = [''c1'' \<mapsto> conv_running], kill_log = [] \<rparr>"

definition body_error_nomsg :: StatusCallbackRequest where
  "body_error_nomsg = \<lparr> req_status = Status_error, req_errorMessage = None, req_sessionId = None \<rparr>"

definition body_completed_msg :: StatusCallbackRequest where
  "body_completed_msg =
     \<lparr> req_status = Status_completed, req_errorMessage = Some ''boom'', req_sessionId = None \<rparr>"

definition body_empty_strings :: StatusCallbackRequest where
  "body_empty_strings =
     \<lparr> req_status = Status_error, req_errorMessage = Some [], req_sessionId = Some [] \<rparr>"

definition body_completed :: StatusCallbackRequest where
  "body_completed =
     \<lparr> req_status = Status_completed, req_errorMessage = None, req_sessionId = Some ''s2'' \<rparr>"

definition body_error :: StatusCallbackRequest where
  "body_error =
     \<lparr> req_status = Status_error, req_errorMessage = Some ''agent crashed'', req_sessionId = None \<rparr>"

text \<open>
  The row a callback writes over \<open>c\<close>: the four columns of \<open>callback_data\<close>, the
  other columns kept. The calls of \<^verbatim>\<open>Sandbox.kill\<close> one request makes are the
  entries it adds to the log.
\<close>

definition written_row :: "conversation \<Rightarrow> StatusCallbackRequest \<Rightarrow> conversation" where
  "written_row c body =
     c\<lparr>status := d_status (callback_data c body),
       errorMessage := d_errorMessage (callback_data c body),
       sessionId := d_sessionId (callback_data c body),
       sandboxId := d_sandboxId (callback_data c body)\<rparr>"

definition kill_attempts :: "env \<Rightarrow> string \<Rightarrow> exn + StatusCallbackRequest \<Rightarrow> world \<Rightarrow> string list" where
  "kill_attempts e i req w = drop (length (kill_log w)) (kill_log (snd (POST e i req w)))"


section \<open>The client lifecycle controller\<close>

text \<open>
  A session entry with the fields the page builds for a pending message (lines 67 to 78
  of \<^verbatim>\<open>app/page.tsx\<close>): \<^verbatim>\<open>type\<close> is \<open>entry_type\<close>, \<^verbatim>\<open>sessionId\<close> is
  \<open>entry_sessionId\<close>.
\<close>

record message_body =
  role :: string
  content :: string

record SessionEntry =
  entry_type :: string
  uuid :: string
  parentUuid :: "string option"
  entry_sessionId :: string
  timestamp :: string
  isSidechain :: bool
  message :: message_body

text \<open>\<^verbatim>\<open>PendingMessage\<close>: \<^verbatim>\<open>id\<close>, \<^verbatim>\<open>content\<close>, \<^verbatim>\<open>timestamp\<close>.\<close>

record PendingMessage =
  pending_id :: string
  pending_content :: string
  pending_timestamp :: string

text \<open>The body of \<^verbatim>\<open>GET /api/conversations/[id]\<close> as the page reads it.\<close>

record ConversationResponse =
  data_status :: status
  data_messages :: "SessionEntry list"
  data_errorMessage :: "string option"

text \<open>The state of \<^verbatim>\<open>Home\<close>: one field for each \<^verbatim>\<open>useState\<close> the lifecycle uses.\<close>

record client =
  conversationId :: "string option"
  ui_status :: status
  serverMessages :: "SessionEntry list"
  pendingMessages :: "PendingMessage list"
  ui_errorMessage :: "string option"
  isSubmitting :: bool
  refreshTrigger :: nat

definition initial_client :: client where
  "initial_client =
     \<lparr> conversationId = None, ui_status = Status_idle, serverMessages = [],
       pendingMessages = [], ui_errorMessage = None, isSubmitting = False,
       refreshTrigger = 0 \<rparr>"

text \<open>The combined list \<^verbatim>\<open>messages\<close>, lines 65 to 79.\<close>

definition pending_entry :: "SessionEntry list \<Rightarrow> PendingMessage \<Rightarrow> SessionEntry" where
  "pending_entry server p =
     \<lparr> entry_type = ''user'',
       uuid = pending_id p,
       parentUuid = (if length server > 0 then Some (uuid (last server)) else None),
       entry_sessionId = [],
       timestamp = pending_timestamp p,
       isSidechain = False,
       message = \<lparr> role = ''user'', content = pending_content p \<rparr> \<rparr>"

definition messages :: "client \<Rightarrow> SessionEntry list" where
  "messages s = serverMessages s @ map (pending_entry (serverMessages s)) (pendingMessages s)"

text \<open>
  One poll, from the reply on (lines 38 to 58): the request may be rejected, the reply may
  be not \<^verbatim>\<open>ok\<close>, its body may fail to parse, or it carries the conversation. Only
  the last case changes the state; the \<^verbatim>\<open>catch\<close> logs and goes on.
\<close>

datatype poll_outcome =
    Poll_fetch_throws
  | Poll_not_ok
  | Poll_json_throws
  | Poll_data ConversationResponse

definition poll_reply :: "poll_outcome \<Rightarrow> client \<Rightarrow> client" where
  "poll_reply out s =
     (case out of
        Poll_data d \<Rightarrow>
          s\<lparr>serverMessages := data_messages d,
            pendingMessages :=
              (if data_status d = Status_completed \<or> data_status d = Status_error then []
               else pendingMessages s),
            ui_status := data_status d,
            ui_errorMessage := js_or (data_errorMessage d) None,
            refreshTrigger := refreshTrigger s + 1\<rparr>
      | _ \<Rightarrow> s)"

text \<open>Decimal digits of a number, for \<^verbatim>\<open>`pending-${Date.now()}`\<close>.\<close>

fun show_nat :: "nat \<Rightarrow> string" where
  "show_nat n =
     (if n < 10 then [char_of (48 + n)]
      else show_nat (n div 10) @ [char_of (48 + n mod 10)])"

declare show_nat.simps [simp del]

definition pendingId :: "nat \<Rightarrow> string" where
  "pendingId now = ''pending-'' @ show_nat now"

text \<open>
  \<^verbatim>\<open>handleSubmit\<close> up to its \<^verbatim>\<open>await\<close> (lines 88 to 98): \<open>now\<close> is the value of
  \<^verbatim>\<open>Date.now()\<close>, \<open>stamp\<close> that of \<^verbatim>\<open>new Date().toISOString()\<close>.
\<close>

definition submit_begin :: "nat \<Rightarrow> string \<Rightarrow> string \<Rightarrow> client \<Rightarrow> client" where
  "submit_begin now stamp msg s =
     s\<lparr>isSubmitting := True,
       ui_errorMessage := None,
       pendingMessages := pendingMessages s @
         [\<lparr> pending_id = pendingId now, pending_content = msg, pending_timestamp = stamp \<rparr>]\<rparr>"

text \<open>
  What the request of \<^verbatim>\<open>handleSubmit\<close> comes to: \<^verbatim>\<open>fetch\<close> rejects; or the reply
  is not \<^verbatim>\<open>ok\<close> and its body fails to parse or carries an \<^verbatim>\<open>error\<close> field (or
  none); or the reply is \<^verbatim>\<open>ok\<close> and its body fails to parse or carries
  \<^verbatim>\<open>conversationId\<close>.
\<close>

datatype submit_outcome =
    Fetch_throws exn
  | Reply_not_ok "exn + string option"
  | Reply_ok "exn + string option"

text \<open>What the \<^verbatim>\<open>try\<close> block throws, if it throws (lines 100 to 117).\<close>

definition submit_thrown :: "submit_outcome \<Rightarrow> exn option" where
  "submit_thrown out =
     (case out of
        Fetch_throws x \<Rightarrow> Some x
      | Reply_not_ok (Inl x) \<Rightarrow> Some x
      | Reply_not_ok (Inr err) \<Rightarrow>
          Some (Error (case err of
                         None \<Rightarrow> ''Failed to send message''
                       | Some m \<Rightarrow> if m = [] then ''Failed to send message'' else m))
      | Reply_ok (Inl x) \<Rightarrow> Some x
      | Reply_ok (Inr cid) \<Rightarrow> None)"

definition error_text :: "exn \<Rightarrow> string" where
  "error_text x = (case x of Error m \<Rightarrow> m | Thrown_other \<Rightarrow> ''Unknown error'')"

text \<open>
  \<^verbatim>\<open>handleSubmit\<close> after the \<^verbatim>\<open>await\<close>: the success path (lines 115 to 117), the
  \<^verbatim>\<open>catch\<close> (lines 118 to 121) and the \<^verbatim>\<open>finally\<close>. The updates of the pending
  list are functional (\<^verbatim>\<open>prev => ...\<close>), so they act on the list as it is then.
\<close>

definition submit_end :: "nat \<Rightarrow> submit_outcome \<Rightarrow> client \<Rightarrow> client" where
  "submit_end now out s =
     (case submit_thrown out of
        Some x \<Rightarrow>
          s\<lparr>pendingMessages := filter (\<lambda>m. pending_id m \<noteq> pendingId now) (pendingMessages s),
            ui_errorMessage := Some (error_text x),
            isSubmitting := False\<rparr>
      | None \<Rightarrow>
          (case out of
             Reply_ok (Inr cid) \<Rightarrow>
               s\<lparr>conversationId := cid, ui_status := Status_running, isSubmitting := False\<rparr>
           | _ \<Rightarrow> s\<lparr>isSubmitting := False\<rparr>))"

definition handleSubmit ::
  "nat \<Rightarrow> string \<Rightarrow> string \<Rightarrow> submit_outcome \<Rightarrow> client \<Rightarrow> client" where
  "handleSubmit now stamp msg out s = submit_end now out (submit_begin now stamp msg s)"

text \<open>Concrete client data for the examples.\<close>

definition entry_hello :: SessionEntry where
  "entry_hello =
     \<lparr> entry_type = ''user'', uuid = ''u1'', parentUuid = None, entry_sessionId = ''s1'',
       timestamp = ''t1'', isSidechain = False,
       message = \<lparr> role = ''user'', content = ''hello'' \<rparr> \<rparr>"

definition entry_answer :: SessionEntry where
  "entry_answer =
     \<lparr> entry_type = ''assistant'', uuid = ''u2'', parentUuid = Some ''u1'',
       entry_sessionId = ''s1'', timestamp = ''t2'', isSidechain = False,
       message = \<lparr> role = ''assistant'', content = ''hi'' \<rparr> \<rparr>"

definition pending_first :: PendingMessage where
  "pending_first =
     \<lparr> pending_id = pendingId 1000, pending_content = ''first'', pending_timestamp = ''t3'' \<rparr>"

definition client_waiting :: client where
  "client_waiting =
     \<lparr> conversationId = Some ''c1'', ui_status = Status_running,
       serverMessages = [entry_hello], pendingMessages = [pending_first],
       ui_errorMessage = None, isSubmitting = False, refreshTrigger = 0 \<rparr>"

definition data_done :: ConversationResponse where
  "data_done =
     \<lparr> data_status = Status_completed, data_messages = [entry_hello, entry_answer],
       data_errorMessage = None \<rparr>"

section \<open>The polling effect\<close>

text \<open>
  The interval the effect of lines 34 to 62 creates: \<^verbatim>\<open>setInterval(..., 2000)\<close>, whose
  callback fetches \<^verbatim>\<open>/api/conversations/${conversationId}\<close>.
\<close>

record interval =
  period_ms :: nat
  poll_target :: string

text \<open>
  The body of the effect: it returns at once when \<^verbatim>\<open>!conversationId\<close> or the status
  is not running, and creates the interval otherwise. The result is the interval its
  cleanup \<^verbatim>\<open>() => clearInterval(pollInterval)\<close> will clear, if there is one.
\<close>

definition poll_effect :: "client \<Rightarrow> interval option" where
  "poll_effect s =
     (if \<not> truthy (conversationId s) \<or> ui_status s \<noteq> Status_running then None
      else (case conversationId s of
              None \<Rightarrow> None
            | Some cid \<Rightarrow> Some \<lparr> period_ms = 2000, poll_target = cid \<rparr>))"

text \<open>
  The mounted component: the state, the live interval, the dependency values
  \<^verbatim>\<open>[conversationId, status]\<close> of the last run of the effect, whether the component is
  mounted, and the number of poll requests sent and not yet answered.
\<close>

record component =
  client_state :: client
  pollInterval :: "interval option"
  effect_deps :: "(string option \<times> status) option"
  mounted :: bool
  in_flight :: nat

text \<open>
  What React does with \<^verbatim>\<open>useEffect(effect, [conversationId, status])\<close> when a render
  is committed: if a dependency changed since the last run (or there was none), the
  cleanup of the last run is called, which clears its interval, and the effect runs again.
\<close>

definition commit :: "component \<Rightarrow> component" where
  "commit c =
     (if effect_deps c = Some (conversationId (client_state c), ui_status (client_state c)) then c
      else c\<lparr>pollInterval := poll_effect (client_state c),
              effect_deps := Some (conversationId (client_state c), ui_status (client_state c))\<rparr>)"

definition mount :: component where
  "mount =
     commit \<lparr> client_state = initial_client, pollInterval = None, effect_deps = None,
              mounted = True, in_flight = 0 \<rparr>"

text \<open>
  What can happen to the component: a submit starts or ends, the interval fires (and
  sends a poll request), a poll request in flight is answered, the component unmounts.
  A state change is followed by the commit of the render it causes. Unmounting calls the
  cleanup; nothing changes an unmounted component.
\<close>

datatype event =
    Submit_begin nat string string
  | Submit_end nat submit_outcome
  | Tick
  | Reply poll_outcome
  | Unmount

definition step :: "event \<Rightarrow> component \<Rightarrow> component" where
  "step ev c =
     (if \<not> mounted c then c
      else (case ev of
              Submit_begin now stamp msg \<Rightarrow>
                commit (c\<lparr>client_state := submit_begin now stamp msg (client_state c)\<rparr>)
            | Submit_end now out \<Rightarrow>
                commit (c\<lparr>client_state := submit_end now out (client_state c)\<rparr>)
            | Tick \<Rightarrow>
                (if pollInterval c = None then c else c\<lparr>in_flight := in_flight c + 1\<rparr>)
            | Reply out \<Rightarrow>
                (if in_flight c = 0 then c
                 else commit (c\<lparr>client_state := poll_reply out (client_state c),
                                in_flight := in_flight c - 1\<rparr>))
            | Unmount \<Rightarrow> c\<lparr>pollInterval := None, mounted := False\<rparr>))"

definition run :: "event list \<Rightarrow> component" where
  "run evs = foldl (\<lambda>c ev. step ev c) mount evs"

text \<open>
  The pending messages the submits of an event sequence create, in the order of the
  submits.
\<close>

fun submitted :: "event list \<Rightarrow> PendingMessage list" where
  "submitted [] = []"
| "submitted (Submit_begin now stamp msg # evs) =
     \<lparr> pending_id = pendingId now, pending_content = msg, pending_timestamp = stamp \<rparr>
       # submitted evs"
| "submitted (ev # evs) = submitted evs"

text \<open>The bookkeeping of the effect is right: the live interval is the one the effect makes.\<close>

definition effect_in_sync :: "component \<Rightarrow> bool" where
  "effect_in_sync c =
     (if mounted c then
        effect_deps c = Some (conversationId (client_state c), ui_status (client_state c)) \<and>
        pollInterval c = poll_effect (client_state c)
      else pollInterval c = None)"

text \<open>Events for the examples.\<close>

definition events_running :: "event list" where
  "events_running =
     [Submit_begin 1000 ''t1'' ''hello'', Submit_end 1000 (Reply_ok (Inr (Some ''c1''))), Tick]"

definition events_done :: "event list" where
  "events_done = events_running @ [Reply (Poll_data data_done)]"

definition events_mixed :: "event list" where
  "events_mixed =
     [Submit_begin 1000 ''t1'' ''first'',
      Submit_begin 2000 ''t2'' ''second'',
      Submit_end 1000 (Reply_not_ok (Inr (Some ''boom''))),
      Submit_end 2000 (Reply_ok (Inr (Some ''c1''))),
      Tick,
      Reply (Poll_data \<lparr> data_status = Status_running, data_messages = [entry_hello],
                          data_errorMessage = None \<rparr>),
      Submit_begin 3000 ''t3'' ''third'']"

section \<open>The file tree of a volume\<close>

text \<open>
  \<^verbatim>\<open>FileInfo\<close> of \<^verbatim>\<open>lib/moru.ts\<close>: \<^verbatim>\<open>type\<close> is \<open>ftype\<close>, \<^verbatim>\<open>size\<close> is
  \<open>fsize\<close>; \<^verbatim>\<open>children\<close> is absent on a file and an array on a directory.
\<close>

datatype file_type = File | Directory

datatype FileInfo =
  FileInfo (name: string) (ftype: file_type) (fsize: "int option") (path: string)
    (children: "FileInfo list option")

text \<open>One entry of what \<^verbatim>\<open>volume.listFiles\<close> lists.\<close>

record VolumeFile =
  f_name :: string
  f_type :: file_type
  f_size :: "int option"
  f_path :: string

text \<open>
  The comparator of \<^verbatim>\<open>result.sort\<close> (lines 133 to 137); \<open>lc\<close> is
  \<^verbatim>\<open>String.prototype.localeCompare\<close>, which depends on the locale of the runtime.
\<close>

definition compare_nodes :: "(string \<Rightarrow> string \<Rightarrow> int) \<Rightarrow> FileInfo \<Rightarrow> FileInfo \<Rightarrow> int" where
  "compare_nodes lc a b =
     (if ftype a = Directory \<and> ftype b \<noteq> Directory then - 1
      else if ftype a \<noteq> Directory \<and> ftype b = Directory then 1
      else lc (name a) (name b))"

text \<open>
  \<^verbatim>\<open>Array.prototype.sort\<close> with a comparator: the sort is stable, and an element
  goes before another one when the comparator does not put it after. It is written here
  as an insertion from the right, which keeps equal elements in their order.
\<close>

fun insert_by :: "('a \<Rightarrow> 'a \<Rightarrow> int) \<Rightarrow> 'a \<Rightarrow> 'a list \<Rightarrow> 'a list" where
  "insert_by cmp x [] = [x]"
| "insert_by cmp x (y # ys) = (if cmp x y \<le> 0 then x # y # ys else y # insert_by cmp x ys)"

definition js_sort :: "('a \<Rightarrow> 'a \<Rightarrow> int) \<Rightarrow> 'a list \<Rightarrow> 'a list" where
  "js_sort cmp xs = foldr (insert_by cmp) xs []"

text \<open>
  \<^verbatim>\<open>maxDepth\<close> is a JavaScript \<^verbatim>\<open>number\<close> (default 5): a finite value, an
  infinity or \<^verbatim>\<open>NaN\<close>. \<^verbatim>\<open>depth\<close> counts up from 0 and is a whole number.
  The guard \<^verbatim>\<open>depth > maxDepth\<close> is false for \<^verbatim>\<open>NaN\<close> and for
  \<^verbatim>\<open>Infinity\<close>.
\<close>

datatype js_number = Finite rat | Pos_infinity | Neg_infinity | NaN

fun depth_exceeds :: "int \<Rightarrow> js_number \<Rightarrow> bool" where
  "depth_exceeds d (Finite q) = (q < of_int d)"
| "depth_exceeds d Pos_infinity = False"
| "depth_exceeds d Neg_infinity = True"
| "depth_exceeds d NaN = False"

text \<open>
  \<^verbatim>\<open>depth + 1\<close> on doubles: exact below \<open>2 ^ 53\<close>; at \<open>2 ^ 53\<close> the sum is not
  representable and rounds back to \<open>2 ^ 53\<close>. Counting from 0 reaches no other value.
\<close>

definition next_depth :: "int \<Rightarrow> int" where
  "next_depth d = (if d < 2 ^ 53 then d + 1 else d)"

definition make_node :: "VolumeFile \<Rightarrow> FileInfo list option \<Rightarrow> FileInfo" where
  "make_node f ch = FileInfo (f_name f) (f_type f) (f_size f) (f_path f) ch"

text \<open>
  \<^verbatim>\<open>buildNode\<close> (lines 107 to 143): \<open>listFiles\<close> is \<^verbatim>\<open>volume.listFiles\<close>, which
  lists a path or throws; the \<^verbatim>\<open>catch\<close> turns a throw into the empty list. The
  recursion may go on for ever, so the function takes a bound on the nesting of calls:
  \<open>None\<close> says that the bound was reached, and a call that never returns is one that
  gives \<open>None\<close> for every bound. A call waits for the calls it makes, one directory
  after the other, so it returns only if all of them do.
\<close>

fun buildNode ::
  "nat \<Rightarrow> (string \<Rightarrow> exn + VolumeFile list) \<Rightarrow> (string \<Rightarrow> string \<Rightarrow> int) \<Rightarrow> js_number \<Rightarrow> string
     \<Rightarrow> int \<Rightarrow> FileInfo list option" where
  "buildNode 0 listFiles lc maxDepth currentPath depth = None"
| "buildNode (Suc fuel) listFiles lc maxDepth currentPath depth =
     (if depth_exceeds depth maxDepth then Some []
      else (case listFiles currentPath of
              Inl x \<Rightarrow> Some []
            | Inr files \<Rightarrow>
                map_option (js_sort (compare_nodes lc))
                  (those (map (\<lambda>f. if f_type f = Directory
                                    then map_option (\<lambda>ch. make_node f (Some ch))
                                           (buildNode fuel listFiles lc maxDepth (f_path f)
                                              (next_depth depth))
                                    else Some (make_node f None))
                            files))))"

text \<open>
  \<^verbatim>\<open>buildFileTree\<close>: \<open>volume\<close> is the outcome of \<^verbatim>\<open>Volume.get(volumeId)\<close>, the
  listing function of the volume or what the call threw (then the promise rejects).
\<close>

definition buildFileTree ::
  "nat \<Rightarrow> exn + (string \<Rightarrow> exn + VolumeFile list) \<Rightarrow> (string \<Rightarrow> string \<Rightarrow> int) \<Rightarrow> string
     \<Rightarrow> js_number \<Rightarrow> (exn + FileInfo list) option" where
  "buildFileTree fuel volume lc p maxDepth =
     (case volume of
        Inl x \<Rightarrow> Some (Inl x)
      | Inr listFiles \<Rightarrow> map_option Inr (buildNode fuel listFiles lc maxDepth p 0))"

text \<open>The number of levels of a tree and of a list of trees.\<close>

fun levels :: "FileInfo \<Rightarrow> nat" where
  "levels (FileInfo n t s p ch) =
     (case ch of None \<Rightarrow> 1 | Some cs \<Rightarrow> 1 + foldr max (map levels cs) 0)"

definition forest_levels :: "FileInfo list \<Rightarrow> nat" where
  "forest_levels xs = foldr max (map levels xs) 0"

text \<open>
  A list of siblings is in order: no file before a directory, and names ascending within
  the directories and within the files.
\<close>

definition siblings_ordered :: "(string \<Rightarrow> string \<Rightarrow> int) \<Rightarrow> FileInfo list \<Rightarrow> bool" where
  "siblings_ordered lc xs =
     sorted_wrt (\<lambda>a b. (ftype a = Directory \<or> ftype b = File) \<and>
                        (ftype a = ftype b \<longrightarrow> lc (name a) (name b) \<le> 0)) xs"

fun tree_ordered :: "(string \<Rightarrow> string \<Rightarrow> int) \<Rightarrow> FileInfo \<Rightarrow> bool" where
  "tree_ordered lc (FileInfo n t s p ch) =
     (case ch of
        None \<Rightarrow> True
      | Some cs \<Rightarrow> siblings_ordered lc cs \<and> (\<forall>c \<in> set cs. tree_ordered lc c))"

definition forest_ordered :: "(string \<Rightarrow> string \<Rightarrow> int) \<Rightarrow> FileInfo list \<Rightarrow> bool" where
  "forest_ordered lc xs = (siblings_ordered lc xs \<and> (\<forall>x \<in> set xs. tree_ordered lc x))"

text \<open>
  What the sort needs of \<^verbatim>\<open>localeCompare\<close>: any two names are comparable, and the
  comparison is transitive.
\<close>

definition consistent :: "(string \<Rightarrow> string \<Rightarrow> int) \<Rightarrow> bool" where
  "consistent lc =
     ((\<forall>a b. lc a b \<le> 0 \<or> lc b a \<le> 0) \<and>
      (\<forall>a b c. lc a b \<le> 0 \<longrightarrow> lc b c \<le> 0 \<longrightarrow> lc a c \<le> 0))"

text \<open>A comparison of names by code units, for the examples.\<close>

definition code_unit_compare :: "string \<Rightarrow> string \<Rightarrow> int" where
  "code_unit_compare a b = (if a < b then - 1 else if a = b then 0 else 1)"

definition deep_volume :: "string \<Rightarrow> exn + VolumeFile list" where
  "deep_volume p =
     Inr [\<lparr> f_name = ''d'', f_type = Directory, f_size = None, f_path = p @ ''d/'' \<rparr>]"

definition small_volume :: "string \<Rightarrow> exn + VolumeFile list" where
  "small_volume p =
     (if p = ''/'' then
        Inr [\<lparr> f_name = ''b.txt'', f_type = File, f_size = Some 3, f_path = ''/b.txt'' \<rparr>,
             \<lparr> f_name = ''src'', f_type = Directory, f_size = None, f_path = ''/src'' \<rparr>,
             \<lparr> f_name = ''a.txt'', f_type = File, f_size = Some 5, f_path = ''/a.txt'' \<rparr>,
             \<lparr> f_name = ''lib'', f_type = Directory, f_size = None, f_path = ''/lib'' \<rparr>]
      else if p = ''/src'' then
        Inr [\<lparr> f_name = ''z.ts'', f_type = File, f_size = Some 1, f_path = ''/src/z.ts'' \<rparr>,
             \<lparr> f_name = ''m.ts'', f_type = File, f_size = Some 2, f_path = ''/src/m.ts'' \<rparr>]
      else Inl (Error ''not found''))"

section \<open>Properties of the status callback endpoint\<close>

lemmas example_defs =
  env_ok_def env_kill_fails_def conv_running_def world_running_def
  body_error_nomsg_def body_completed_msg_def body_empty_strings_def body_completed_def
  body_error_def

lemmas callback_defs =
  POST_def findUnique_def prisma_update_def callback_data_def killSandbox_def
  Sandbox_kill_def catch_500_def js_or_def truthy_def

lemma killSandbox_eq:
  "killSandbox e sid w = (Inr (), w\<lparr>kill_log := kill_log w @ [sid]\<rparr>)"
  by (simp add: killSandbox_def Sandbox_kill_def split: option.splits)

lemma POST_found:
  assumes "rows w i = Some c" "find_raises e = None" "update_raises e = None"
  shows "POST e i (Inr body) w =
           (Response Json_success 200,
            \<lparr> rows = (rows w)(i \<mapsto> written_row c body),
              kill_log = kill_log w @
                (case sandboxId c of None \<Rightarrow> [] | Some sid \<Rightarrow> if sid = [] then [] else [sid]) \<rparr>)"
  using assms
  by (simp add: POST_def findUnique_def prisma_update_def callback_data_def written_row_def
      killSandbox_eq truthy_def split: option.splits)

lemma POST_success_D:
  assumes "POST e i req w = (Response Json_success 200, w')"
  shows "\<exists>body c. req = Inr body \<and> rows w i = Some c \<and>
           rows w' = (rows w)(i \<mapsto> written_row c body) \<and>
           kill_log w' = kill_log w @
             (case sandboxId c of None \<Rightarrow> [] | Some sid \<Rightarrow> if sid = [] then [] else [sid])"
  using assms
  by (auto simp: POST_def findUnique_def prisma_update_def callback_data_def written_row_def
      killSandbox_eq truthy_def catch_500_def split: option.splits sum.splits if_splits)

lemma errorMessage_written:
  "(errorMessage (written_row c body) \<noteq> None) = truthy (req_errorMessage body)"
  by (simp add: written_row_def callback_data_def js_or_def truthy_def split: option.splits)

lemma sessionId_written:
  "sessionId (written_row c body) =
     (if truthy (req_sessionId body) then req_sessionId body else sessionId c)"
  by (simp add: written_row_def callback_data_def js_or_def)

lemma written_row_simps:
  "status (written_row c body) = req_status body"
  "sandboxId (written_row c body) = None"
  "conv_id (written_row c body) = conv_id c"
  "volumeId (written_row c body) = volumeId c"
  by (simp_all add: written_row_def callback_data_def)

text \<open>
  C1, as stated, fails: the route stores whatever status and message the callback
  carries. An error callback without a message leaves an error record whose
  \<open>errorMessage\<close> is null, and a completed callback with a message leaves a completed
  record whose \<open>errorMessage\<close> is set.
\<close>

theorem callback_invariant_counterexample:
  "fst (POST env_ok ''c1'' (Inr body_error_nomsg) world_running) = Response Json_success 200 \<and>
   rows (snd (POST env_ok ''c1'' (Inr body_error_nomsg) world_running)) ''c1'' =
     Some (conv_running\<lparr>status := Status_error, sandboxId := None, errorMessage := None\<rparr>) \<and>
   \<not> lifecycle_invariant
       (conv_running\<lparr>status := Status_error, sandboxId := None, errorMessage := None\<rparr>) \<and>
   rows (snd (POST env_ok ''c1'' (Inr body_completed_msg) world_running)) ''c1'' =
     Some (conv_running\<lparr>status := Status_completed, sandboxId := None,
            errorMessage := Some ''boom''\<rparr>) \<and>
   \<not> lifecycle_invariant
       (conv_running\<lparr>status := Status_completed, sandboxId := None,
          errorMessage := Some ''boom''\<rparr>)"
  by (simp add: callback_defs lifecycle_invariant_def example_defs)

text \<open>
  C1 (amended): for every record written by a successful status callback, after any
  sequence of earlier callbacks, \<open>sandboxId\<close> is null whatever the status, the status is
  the reported one, and \<open>errorMessage\<close> is non-null exactly when that callback supplied
  a non-empty message. So the invariant of the specification holds for the record
  whenever an error callback carries a non-empty message and a completed callback
  carries none.
\<close>

theorem callback_invariant_amended:
  assumes "POST e i (Inr body) (POSTs i calls w0) = (Response Json_success 200, w')"
  shows "\<exists>c. rows w' i = Some c \<and> status c = req_status body \<and> sandboxId c = None \<and>
           (errorMessage c \<noteq> None \<longleftrightarrow> truthy (req_errorMessage body)) \<and>
           ((req_status body = Status_error \<longrightarrow> truthy (req_errorMessage body)) \<and>
            (req_status body = Status_completed \<longrightarrow> \<not> truthy (req_errorMessage body))
            \<longrightarrow> lifecycle_invariant c)"
proof -
  from POST_success_D [OF assms] obtain c0 where
    r: "rows w' = (rows (POSTs i calls w0))(i \<mapsto> written_row c0 body)"
    by auto
  let ?c = "written_row c0 body"
  have 1: "rows w' i = Some ?c" by (simp add: r)
  have 2: "(errorMessage ?c \<noteq> None) = truthy (req_errorMessage body)"
    by (rule errorMessage_written)
  have 3: "(req_status body = Status_error \<longrightarrow> truthy (req_errorMessage body)) \<and>
            (req_status body = Status_completed \<longrightarrow> \<not> truthy (req_errorMessage body))
            \<longrightarrow> lifecycle_invariant ?c"
    using 2 by (auto simp: lifecycle_invariant_def written_row_simps)
  show ?thesis using 1 2 3 by (simp add: written_row_simps)
qed

theorem callback_invariant_amended_witness:
  "POST env_ok ''c1'' (Inr body_error)
       (POSTs ''c1'' [(env_kill_fails, Inr body_completed)] world_running)
     = (Response Json_success 200,
        \<lparr> rows = [''c1'' \<mapsto> conv_running\<lparr>status := Status_error, sessionId := Some ''s2'',
                     sandboxId := None, errorMessage := Some ''agent crashed''\<rparr>],
          kill_log = [''sb1''] \<rparr>) \<and>
   (\<exists>c. [''c1'' \<mapsto> conv_running\<lparr>status := Status_error, sessionId := Some ''s2'',
                     sandboxId := None, errorMessage := Some ''agent crashed''\<rparr>] ''c1'' = Some c \<and>
        status c = Status_error \<and> sandboxId c = None \<and> errorMessage c \<noteq> None \<and>
        lifecycle_invariant c)"
proof -
  have p: "POST env_ok ''c1'' (Inr body_error)
       (POSTs ''c1'' [(env_kill_fails, Inr body_completed)] world_running)
     = (Response Json_success 200,
        \<lparr> rows = [''c1'' \<mapsto> conv_running\<lparr>status := Status_error, sessionId := Some ''s2'',
                     sandboxId := None, errorMessage := Some ''agent crashed''\<rparr>],
          kill_log = [''sb1''] \<rparr>)"
    by (simp add: callback_defs example_defs)
  show ?thesis using callback_invariant_amended [OF p] p
    by (simp add: body_error_def truthy_def)
qed

text \<open>
  C2, as stated, fails on an empty string: \<^verbatim>\<open>errorMessage || null\<close> and
  \<^verbatim>\<open>sessionId || conversation.sessionId\<close> treat a supplied empty string as absent.
  A callback that supplies \<^verbatim>\<open>errorMessage: ""\<close> and \<^verbatim>\<open>sessionId: ""\<close>
  leaves \<open>errorMessage\<close> null and \<open>sessionId\<close> at its previous value, not at the
  supplied values.
\<close>

theorem callback_update_counterexample:
  "req_errorMessage body_empty_strings = Some [] \<and>
   req_sessionId body_empty_strings = Some [] \<and>
   fst (POST env_ok ''c1'' (Inr body_empty_strings) world_running) = Response Json_success 200 \<and>
   rows (snd (POST env_ok ''c1'' (Inr body_empty_strings) world_running)) ''c1'' =
     Some (conv_running\<lparr>status := Status_error, sandboxId := None, errorMessage := None,
            sessionId := Some ''s1''\<rparr>)"
  by (simp add: callback_defs example_defs)

text \<open>
  C2 (amended): for every status callback on an existing conversation (the row lookup and
  the row update not failing), the resulting record has \<open>status\<close> set to the supplied
  status, \<open>errorMessage\<close> set to the supplied value when that is a non-empty string and
  null otherwise, \<open>sessionId\<close> set to the supplied value when that is a non-empty
  string and otherwise kept, and \<open>sandboxId\<close> null; the other columns are kept, and a
  previously non-null \<open>sessionId\<close> never becomes null.
\<close>

theorem callback_update_amended:
  assumes "rows w i = Some c" and "find_raises e = None" and "update_raises e = None"
  shows "rows (snd (POST e i (Inr body) w)) i =
           Some (c\<lparr>status := req_status body,
                   errorMessage := (if truthy (req_errorMessage body) then req_errorMessage body else None),
                   sessionId := (if truthy (req_sessionId body) then req_sessionId body else sessionId c),
                   sandboxId := None\<rparr>) \<and>
         (sessionId c \<noteq> None \<longrightarrow>
            (if truthy (req_sessionId body) then req_sessionId body else sessionId c) \<noteq> None)"
proof -
  have "rows (snd (POST e i (Inr body) w)) i = Some (written_row c body)"
    by (simp add: POST_found [OF assms])
  moreover have "sessionId c \<noteq> None \<Longrightarrow>
      (if truthy (req_sessionId body) then req_sessionId body else sessionId c) \<noteq> None"
    by (auto simp: truthy_def split: option.splits)
  ultimately show ?thesis
    by (auto simp: written_row_def callback_data_def js_or_def)
qed

theorem callback_update_amended_witness:
  "rows world_running ''c1'' = Some conv_running \<and> find_raises env_kill_fails = None \<and>
   update_raises env_kill_fails = None \<and> sessionId conv_running \<noteq> None \<and>
   rows (snd (POST env_kill_fails ''c1'' (Inr body_error) world_running)) ''c1'' =
     Some (conv_running\<lparr>status := Status_error, errorMessage := Some ''agent crashed'',
            sessionId := Some ''s1'', sandboxId := None\<rparr>)"
proof -
  have h: "rows world_running ''c1'' = Some conv_running" "find_raises env_kill_fails = None"
    "update_raises env_kill_fails = None"
    by (simp_all add: example_defs)
  show ?thesis
    using callback_update_amended [OF h, of body_error] h
    by (simp add: example_defs truthy_def)
qed

text \<open>
  C4, as stated, fails in its second half: the termination is guarded by
  \<^verbatim>\<open>if (conversation.sandboxId)\<close>, and the first callback clears \<open>sandboxId\<close>.
  The second of two callbacks in a row therefore reads a record without a sandbox and
  attempts no termination at all.
\<close>

theorem last_write_wins_counterexample:
  "fst (POST env_kill_fails ''c1'' (Inr body_completed) world_running) = Response Json_success 200 \<and>
   kill_attempts env_kill_fails ''c1'' (Inr body_completed) world_running = [''sb1''] \<and>
   fst (POST env_ok ''c1'' (Inr body_error)
          (snd (POST env_kill_fails ''c1'' (Inr body_completed) world_running)))
     = Response Json_success 200 \<and>
   kill_attempts env_ok ''c1'' (Inr body_error)
     (snd (POST env_kill_fails ''c1'' (Inr body_completed) world_running)) = []"
  by (simp add: kill_attempts_def callback_defs example_defs)

lemma kill_attempts_found:
  assumes "rows w i = Some c" "find_raises e = None" "update_raises e = None"
  shows "kill_attempts e i (Inr body) w =
           (case sandboxId c of None \<Rightarrow> [] | Some sid \<Rightarrow> if sid = [] then [] else [sid])"
  by (simp add: kill_attempts_def POST_found [OF assms])

text \<open>
  C4 (amended): for every conversation and every pair of status callbacks in a row, in
  particular with different terminal statuses (the row lookups and updates not failing),
  both calls answer \<^verbatim>\<open>{success: true}\<close> whatever \<^verbatim>\<open>Sandbox.kill\<close> does, the record after
  both carries the second call's status, the first call attempts the termination exactly
  when the record it read holds a non-empty \<open>sandboxId\<close> (once, for that sandbox), and
  the second call attempts none.
\<close>

theorem last_write_wins_amended:
  assumes c: "rows w i = Some c"
    and e1: "find_raises e1 = None" "update_raises e1 = None"
    and e2: "find_raises e2 = None" "update_raises e2 = None"
  shows "fst (POST e1 i (Inr b1) w) = Response Json_success 200 \<and>
         fst (POST e2 i (Inr b2) (snd (POST e1 i (Inr b1) w))) = Response Json_success 200 \<and>
         map_option status (rows (snd (POST e2 i (Inr b2) (snd (POST e1 i (Inr b1) w)))) i)
           = Some (req_status b2) \<and>
         kill_attempts e1 i (Inr b1) w =
           (case sandboxId c of None \<Rightarrow> [] | Some sid \<Rightarrow> if sid = [] then [] else [sid]) \<and>
         kill_attempts e2 i (Inr b2) (snd (POST e1 i (Inr b1) w)) = []"
proof -
  let ?w1 = "snd (POST e1 i (Inr b1) w)"
  have r1: "rows ?w1 i = Some (written_row c b1)"
    by (simp add: POST_found [OF c e1])
  have a: "fst (POST e1 i (Inr b1) w) = Response Json_success 200"
    by (simp add: POST_found [OF c e1])
  have b: "fst (POST e2 i (Inr b2) ?w1) = Response Json_success 200"
    by (simp only: POST_found [OF r1 e2] fst_conv)
  have k2: "kill_attempts e2 i (Inr b2) ?w1 = []"
    by (simp only: kill_attempts_found [OF r1 e2] written_row_simps option.case)
  have s2: "map_option status (rows (snd (POST e2 i (Inr b2) ?w1)) i) = Some (req_status b2)"
    by (simp add: POST_found [OF r1 e2] written_row_simps)
  have k1: "kill_attempts e1 i (Inr b1) w =
           (case sandboxId c of None \<Rightarrow> [] | Some sid \<Rightarrow> if sid = [] then [] else [sid])"
    by (rule kill_attempts_found [OF c e1])
  from a b s2 k1 k2 show ?thesis by (intro conjI)
qed

theorem last_write_wins_amended_witness:
  "rows world_running ''c1'' = Some conv_running \<and>
   req_status body_completed \<noteq> req_status body_error \<and>
   kill_raises env_kill_fails ''sb1'' = Some (Error ''sandbox not found'') \<and>
   fst (POST env_kill_fails ''c1'' (Inr body_completed) world_running) = Response Json_success 200 \<and>
   fst (POST env_ok ''c1'' (Inr body_error)
          (snd (POST env_kill_fails ''c1'' (Inr body_completed) world_running)))
     = Response Json_success 200 \<and>
   map_option status
     (rows (snd (POST env_ok ''c1'' (Inr body_error)
        (snd (POST env_kill_fails ''c1'' (Inr body_completed) world_running)))) ''c1'')
     = Some Status_error \<and>
   kill_attempts env_kill_fails ''c1'' (Inr body_completed) world_running = [''sb1'']"
proof -
  have h: "rows world_running ''c1'' = Some conv_running"
    "find_raises env_kill_fails = None" "update_raises env_kill_fails = None"
    "find_raises env_ok = None" "update_raises env_ok = None"
    by (simp_all add: example_defs)
  show ?thesis
    using last_write_wins_amended [OF h, of body_completed body_error] h(1)
    by (simp add: example_defs)
qed

text \<open>
  C5: once the row was found and its update succeeded, the endpoint answers
  \<^verbatim>\<open>{success: true}\<close> with status 200 whatever \<^verbatim>\<open>Sandbox.kill\<close> does, and
  \<open>killSandbox\<close> returns normally for every sandbox identifier and every behaviour of
  the provider.
\<close>

theorem callback_success_despite_cleanup:
  "(findUnique e i w = Inr (Some conv) \<and> prisma_update e i (callback_data conv body) w = Inr w1
      \<longrightarrow> fst (POST e i (Inr body) w) = Response Json_success 200) \<and>
   fst (killSandbox e sid w) = Inr ()"
  by (simp add: POST_def killSandbox_eq split: option.splits)

theorem callback_success_despite_cleanup_witness:
  "findUnique env_kill_fails ''c1'' world_running = Inr (Some conv_running) \<and>
   prisma_update env_kill_fails ''c1'' (callback_data conv_running body_completed) world_running
     = Inr \<lparr> rows = [''c1'' \<mapsto> conv_running\<lparr>status := Status_completed, errorMessage := None,
                       sessionId := Some ''s2'', sandboxId := None\<rparr>], kill_log = [] \<rparr> \<and>
   fst (Sandbox_kill env_kill_fails ''sb1'' world_running) = Inl (Error ''sandbox not found'') \<and>
   fst (POST env_kill_fails ''c1'' (Inr body_completed) world_running) = Response Json_success 200 \<and>
   fst (killSandbox env_kill_fails ''sb1'' world_running) = Inr ()"
proof -
  have h: "findUnique env_kill_fails ''c1'' world_running = Inr (Some conv_running) \<and>
   prisma_update env_kill_fails ''c1'' (callback_data conv_running body_completed) world_running
     = Inr \<lparr> rows = [''c1'' \<mapsto> conv_running\<lparr>status := Status_completed, errorMessage := None,
                       sessionId := Some ''s2'', sandboxId := None\<rparr>], kill_log = [] \<rparr>"
    by (simp add: findUnique_def prisma_update_def callback_data_def js_or_def truthy_def example_defs)
  have k: "fst (Sandbox_kill env_kill_fails ''sb1'' world_running) = Inl (Error ''sandbox not found'')"
    by (simp add: Sandbox_kill_def example_defs)
  show ?thesis
    using callback_success_despite_cleanup [of env_kill_fails "''c1''" world_running conv_running
        body_completed _ "''sb1''"] h k
    by simp
qed

section \<open>Properties of the client lifecycle controller\<close>

text \<open>
  C3: when a poll returns a terminal status (completed or error), the pending list
  becomes empty and the displayed sequence is exactly the message list of that reply:
  nothing is duplicated and nothing is dropped. This holds for every client state, in
  particular for one whose pending list is not empty.
\<close>

theorem poll_terminal_reconciles:
  assumes "data_status d = Status_completed \<or> data_status d = Status_error"
  shows "pendingMessages (poll_reply (Poll_data d) s) = [] \<and>
         serverMessages (poll_reply (Poll_data d) s) = data_messages d \<and>
         messages (poll_reply (Poll_data d) s) = data_messages d"
  using assms by (simp add: poll_reply_def messages_def)

theorem poll_terminal_reconciles_witness:
  "pendingMessages client_waiting \<noteq> [] \<and> data_status data_done = Status_completed \<and>
   pendingMessages (poll_reply (Poll_data data_done) client_waiting) = [] \<and>
   messages (poll_reply (Poll_data data_done) client_waiting) = [entry_hello, entry_answer]"
proof -
  have h: "data_status data_done = Status_completed \<or> data_status data_done = Status_error"
    by (simp add: data_done_def)
  show ?thesis
    using poll_terminal_reconciles [OF h, of client_waiting]
    by (simp add: data_done_def client_waiting_def)
qed

text \<open>
  C6: the \<^verbatim>\<open>catch\<close> means to remove the one message the submit added (its comment:
  \<^verbatim>\<open>Remove pending message on error\<close>), and finds it by its identifier, \<^verbatim>\<open>pending-\<close> followed
  by \<^verbatim>\<open>Date.now()\<close>. The identifier is not unique: two calls of \<^verbatim>\<open>handleSubmit\<close>
  in the same millisecond get the same one, and the failure of one of them removes the
  pending message of the other as well. Here both submits start at time 1000; one
  request fails, and the pending list goes from two messages to none.
\<close>

theorem failed_submit_collision:
  "submit_thrown (Reply_not_ok (Inr (Some ''boom''))) = Some (Error ''boom'') \<and>
   pendingMessages
     (submit_begin 1000 ''t2'' ''second'' (submit_begin 1000 ''t1'' ''first'' initial_client)) =
     [\<lparr> pending_id = pendingId 1000, pending_content = ''first'', pending_timestamp = ''t1'' \<rparr>,
      \<lparr> pending_id = pendingId 1000, pending_content = ''second'', pending_timestamp = ''t2'' \<rparr>] \<and>
   pendingMessages
     (submit_end 1000 (Reply_not_ok (Inr (Some ''boom'')))
        (submit_begin 1000 ''t2'' ''second'' (submit_begin 1000 ''t1'' ''first'' initial_client)))
     = []"
  by (simp add: submit_end_def submit_begin_def submit_thrown_def initial_client_def)

text \<open>
  Apart from that collision the \<^verbatim>\<open>catch\<close> does what it means to: when the
  identifier is carried by one pending message only, that message is removed, the other
  pending messages keep their places, the server-confirmed messages are unchanged and
  the error text is put into the error state.
\<close>

lemma submit_end_unique_id:
  assumes "submit_thrown out = Some x"
    and "pendingMessages s = xs @ [m] @ ys"
    and "pending_id m = pendingId now"
    and "\<forall>p \<in> set (xs @ ys). pending_id p \<noteq> pendingId now"
  shows "pendingMessages (submit_end now out s) = xs @ ys \<and>
         serverMessages (submit_end now out s) = serverMessages s \<and>
         ui_errorMessage (submit_end now out s) = Some (error_text x)"
proof -
  have "filter (\<lambda>p. pending_id p \<noteq> pendingId now) (xs @ [m] @ ys) = xs @ ys"
    using assms(3,4) by (simp add: filter_id_conv)
  then show ?thesis
    using assms(1,2) by (simp add: submit_end_def)
qed

section \<open>Properties of the polling effect\<close>

lemma poll_effect_cong:
  "conversationId s = conversationId s' \<Longrightarrow> ui_status s = ui_status s' \<Longrightarrow>
   poll_effect s = poll_effect s'"
  by (simp add: poll_effect_def)

lemma commit_in_sync:
  assumes "mounted c"
    and "effect_deps c = Some (conversationId (client_state c), ui_status (client_state c))
           \<Longrightarrow> pollInterval c = poll_effect (client_state c)"
  shows "effect_in_sync (commit c)"
  using assms by (simp add: commit_def effect_in_sync_def)

lemma mount_in_sync: "effect_in_sync mount"
  by (simp add: mount_def commit_def effect_in_sync_def)

lemma step_in_sync:
  assumes "effect_in_sync c"
  shows "effect_in_sync (step ev c)"
proof (cases "mounted c")
  case False
  with assms show ?thesis by (simp add: step_def)
next
  case True
  with assms have d: "effect_deps c = Some (conversationId (client_state c), ui_status (client_state c))"
    and p: "pollInterval c = poll_effect (client_state c)"
    by (simp_all add: effect_in_sync_def)
  have upd2: "effect_in_sync (commit (c\<lparr>client_state := s', in_flight := n\<rparr>))" for s' n
  proof (rule commit_in_sync)
    show "mounted (c\<lparr>client_state := s', in_flight := n\<rparr>)" using True by simp
  next
    assume "effect_deps (c\<lparr>client_state := s', in_flight := n\<rparr>) =
      Some (conversationId (client_state (c\<lparr>client_state := s', in_flight := n\<rparr>)),
            ui_status (client_state (c\<lparr>client_state := s', in_flight := n\<rparr>)))"
    with d have "conversationId s' = conversationId (client_state c)"
      "ui_status s' = ui_status (client_state c)" by simp_all
    then have "poll_effect s' = poll_effect (client_state c)" by (rule poll_effect_cong)
    with p show "pollInterval (c\<lparr>client_state := s', in_flight := n\<rparr>) =
      poll_effect (client_state (c\<lparr>client_state := s', in_flight := n\<rparr>))" by simp
  qed
  have upd: "effect_in_sync (commit (c\<lparr>client_state := s'\<rparr>))" for s'
    using upd2 [where s' = s' and n = "in_flight c"] by simp
  show ?thesis
  proof (cases ev)
    case (Submit_begin now stamp msg)
    then show ?thesis using True upd by (simp add: step_def)
  next
    case (Submit_end now out)
    then show ?thesis using True upd by (simp add: step_def)
  next
    case Tick
    then show ?thesis using True assms by (simp add: step_def effect_in_sync_def)
  next
    case (Reply out)
    then show ?thesis using True assms upd2 by (simp add: step_def)
  next
    case Unmount
    then show ?thesis using True by (simp add: step_def effect_in_sync_def)
  qed
qed

lemma run_snoc: "run (evs @ [ev]) = step ev (run evs)"
  by (simp add: run_def)

lemma run_in_sync: "effect_in_sync (run evs)"
proof (induction evs rule: rev_induct)
  case Nil
  show ?case by (simp add: run_def mount_in_sync)
next
  case (snoc ev evs)
  then show ?case by (simp add: run_snoc step_in_sync)
qed

lemma poll_effect_Some_iff:
  "(poll_effect s \<noteq> None) = (truthy (conversationId s) \<and> ui_status s = Status_running)"
  by (auto simp: poll_effect_def truthy_def split: option.splits)

lemma poll_effect_SomeD:
  "poll_effect s = Some iv \<Longrightarrow> period_ms iv = 2000 \<and> conversationId s = Some (poll_target iv)"
  by (auto simp: poll_effect_def split: option.splits if_splits)

text \<open>
  C8: in every state the component reaches, the 2-second interval is live exactly when
  the component is mounted, \<open>conversationId\<close> is set (present and not empty, the
  test \<^verbatim>\<open>!conversationId\<close> of the effect) and the status is running, and it polls
  that conversation. Hence when the status is not running no interval is live and a
  timer event sends no poll request, and unmounting clears the interval. (Requests
  already sent are still answered: \<open>in_flight\<close> is not reset.)
\<close>

theorem polling_active_iff:
  "(pollInterval (run evs) \<noteq> None \<longleftrightarrow>
      mounted (run evs) \<and> truthy (conversationId (client_state (run evs))) \<and>
      ui_status (client_state (run evs)) = Status_running) \<and>
   (\<forall>iv. pollInterval (run evs) = Some iv \<longrightarrow>
      period_ms iv = 2000 \<and> conversationId (client_state (run evs)) = Some (poll_target iv)) \<and>
   (ui_status (client_state (run evs)) \<noteq> Status_running \<longrightarrow> step Tick (run evs) = run evs) \<and>
   pollInterval (step Unmount (run evs)) = None"
proof -
  let ?c = "run evs"
  have s: "effect_in_sync ?c" by (rule run_in_sync)
  have a: "pollInterval ?c \<noteq> None \<longleftrightarrow>
      mounted ?c \<and> truthy (conversationId (client_state ?c)) \<and>
      ui_status (client_state ?c) = Status_running"
    using s poll_effect_Some_iff [of "client_state ?c"]
    by (cases "mounted ?c") (simp_all add: effect_in_sync_def)
  have b: "\<forall>iv. pollInterval ?c = Some iv \<longrightarrow>
      period_ms iv = 2000 \<and> conversationId (client_state ?c) = Some (poll_target iv)"
    using s poll_effect_SomeD [of "client_state ?c"]
    by (cases "mounted ?c") (simp_all add: effect_in_sync_def)
  have c: "ui_status (client_state ?c) \<noteq> Status_running \<longrightarrow> step Tick ?c = ?c"
    using a by (auto simp: step_def)
  have d: "pollInterval (step Unmount ?c) = None"
    using s by (cases "mounted ?c") (simp_all add: step_def effect_in_sync_def)
  from a b c d show ?thesis by (intro conjI)
qed

lemmas polling_defs =
  run_def step_def commit_def mount_def poll_effect_def truthy_def js_or_def
  submit_begin_def submit_end_def submit_thrown_def poll_reply_def initial_client_def

theorem polling_active_iff_witness:
  "pollInterval (run events_running) = Some \<lparr> period_ms = 2000, poll_target = ''c1'' \<rparr> \<and>
   in_flight (run events_running) = 1 \<and>
   ui_status (client_state (run events_done)) = Status_completed \<and>
   pollInterval (run events_done) = None \<and>
   step Tick (run events_done) = run events_done"
proof -
  have r: "pollInterval (run events_running) = Some \<lparr> period_ms = 2000, poll_target = ''c1'' \<rparr>"
    "in_flight (run events_running) = 1"
    by (simp_all add: events_running_def polling_defs)
  have d: "ui_status (client_state (run events_done)) = Status_completed"
    by (simp add: events_done_def events_running_def data_done_def polling_defs)
  show ?thesis
    using polling_active_iff [of events_done] r d by simp
qed

lemma client_state_commit: "client_state (commit c) = client_state c"
  by (simp add: commit_def)

lemma submitted_append: "submitted (evs @ evs') = submitted evs @ submitted evs'"
  by (induction evs rule: submitted.induct) simp_all

lemma pending_step:
  "pendingMessages (client_state (step ev c)) = pendingMessages (client_state c) @ submitted [ev] \<or>
   subseq (pendingMessages (client_state (step ev c))) (pendingMessages (client_state c))"
proof (cases "mounted c")
  case False
  then show ?thesis by (simp add: step_def)
next
  case True
  show ?thesis
  proof (cases ev)
    case (Submit_begin now stamp msg)
    with True show ?thesis by (simp add: step_def client_state_commit submit_begin_def)
  next
    case (Submit_end now out)
    with True show ?thesis
      by (auto simp: step_def client_state_commit submit_end_def
          split: option.splits submit_outcome.splits sum.splits)
  next
    case Tick
    with True show ?thesis by (simp add: step_def)
  next
    case (Reply out)
    with True show ?thesis
      by (auto simp: step_def client_state_commit poll_reply_def split: poll_outcome.splits)
  next
    case Unmount
    with True show ?thesis by (simp add: step_def)
  qed
qed

lemma pending_subseq_submitted:
  "subseq (pendingMessages (client_state (run evs))) (submitted evs)"
proof (induction evs rule: rev_induct)
  case Nil
  show ?case by (simp add: run_def mount_def client_state_commit initial_client_def)
next
  case (snoc ev evs)
  let ?old = "pendingMessages (client_state (run evs))"
  let ?new = "pendingMessages (client_state (step ev (run evs)))"
  from pending_step [of ev "run evs"]
  have "subseq ?new (submitted evs @ submitted [ev])"
  proof
    assume "?new = ?old @ submitted [ev]"
    with snoc show ?thesis by (simp add: list_emb_append_mono)
  next
    assume "subseq ?new ?old"
    from this snoc have "subseq ?new (submitted evs)" by (rule subseq_order.trans)
    then show ?thesis by (rule list_emb_prefix)
  qed
  then show ?case by (simp add: run_snoc submitted_append)
qed

lemma server_step:
  "serverMessages (client_state (step ev c)) = serverMessages (client_state c) \<or>
   (\<exists>d. ev = Reply (Poll_data d) \<and> serverMessages (client_state (step ev c)) = data_messages d)"
proof (cases "mounted c")
  case False
  then show ?thesis by (simp add: step_def)
next
  case True
  show ?thesis
  proof (cases ev)
    case (Submit_begin now stamp msg)
    with True show ?thesis by (simp add: step_def client_state_commit submit_begin_def)
  next
    case (Submit_end now out)
    with True show ?thesis
      by (auto simp: step_def client_state_commit submit_end_def
          split: option.splits submit_outcome.splits sum.splits)
  next
    case Tick
    with True show ?thesis by (simp add: step_def)
  next
    case (Reply out)
    with True show ?thesis
      by (auto simp: step_def client_state_commit poll_reply_def split: poll_outcome.splits)
  next
    case Unmount
    with True show ?thesis by (simp add: step_def)
  qed
qed

lemma server_from_reply:
  "serverMessages (client_state (run evs)) = [] \<or>
   (\<exists>d. Reply (Poll_data d) \<in> set evs \<and>
        serverMessages (client_state (run evs)) = data_messages d)"
proof (induction evs rule: rev_induct)
  case Nil
  show ?case by (simp add: run_def mount_def client_state_commit initial_client_def)
next
  case (snoc ev evs)
  from server_step [of ev "run evs"] snoc show ?case
    by (auto simp: run_snoc)
qed

text \<open>
  C7: in every state the component reaches, the displayed sequence is the
  server-confirmed messages followed by the pending messages. The confirmed part is the
  message list of a poll reply as that reply gave it (or empty before any reply); the
  pending part is what remains of the submitted messages, in the order of their
  submits: a subsequence of them. Position by position: below the number of confirmed
  messages the displayed entry is the confirmed one, from there on it is the entry made
  from the pending message of that rank (its identifier and its content).
\<close>

theorem displayed_sequence:
  "messages (client_state (run evs)) =
     serverMessages (client_state (run evs)) @
     map (pending_entry (serverMessages (client_state (run evs))))
       (pendingMessages (client_state (run evs))) \<and>
   subseq (pendingMessages (client_state (run evs))) (submitted evs) \<and>
   (serverMessages (client_state (run evs)) = [] \<or>
    (\<exists>d. Reply (Poll_data d) \<in> set evs \<and>
         serverMessages (client_state (run evs)) = data_messages d)) \<and>
   (\<forall>k < length (messages (client_state (run evs))).
      (k < length (serverMessages (client_state (run evs))) \<longrightarrow>
         messages (client_state (run evs)) ! k = serverMessages (client_state (run evs)) ! k) \<and>
      (length (serverMessages (client_state (run evs))) \<le> k \<longrightarrow>
         uuid (messages (client_state (run evs)) ! k) =
           pending_id (pendingMessages (client_state (run evs)) !
             (k - length (serverMessages (client_state (run evs))))) \<and>
         content (message (messages (client_state (run evs)) ! k)) =
           pending_content (pendingMessages (client_state (run evs)) !
             (k - length (serverMessages (client_state (run evs)))))))"
proof -
  let ?s = "client_state (run evs)"
  have a: "messages ?s = serverMessages ?s @ map (pending_entry (serverMessages ?s)) (pendingMessages ?s)"
    by (simp add: messages_def)
  have d: "\<forall>k < length (messages ?s).
      (k < length (serverMessages ?s) \<longrightarrow> messages ?s ! k = serverMessages ?s ! k) \<and>
      (length (serverMessages ?s) \<le> k \<longrightarrow>
         uuid (messages ?s ! k) = pending_id (pendingMessages ?s ! (k - length (serverMessages ?s))) \<and>
         content (message (messages ?s ! k)) =
           pending_content (pendingMessages ?s ! (k - length (serverMessages ?s))))"
    by (auto simp: messages_def nth_append pending_entry_def)
  from a pending_subseq_submitted [of evs] server_from_reply [of evs] d
  show ?thesis by (intro conjI)
qed

theorem displayed_sequence_witness:
  "pendingMessages (client_state (run events_mixed)) =
     [\<lparr> pending_id = pendingId 2000, pending_content = ''second'', pending_timestamp = ''t2'' \<rparr>,
      \<lparr> pending_id = pendingId 3000, pending_content = ''third'', pending_timestamp = ''t3'' \<rparr>] \<and>
   submitted events_mixed =
     [\<lparr> pending_id = pendingId 1000, pending_content = ''first'', pending_timestamp = ''t1'' \<rparr>,
      \<lparr> pending_id = pendingId 2000, pending_content = ''second'', pending_timestamp = ''t2'' \<rparr>,
      \<lparr> pending_id = pendingId 3000, pending_content = ''third'', pending_timestamp = ''t3'' \<rparr>] \<and>
   messages (client_state (run events_mixed)) =
     [entry_hello,
      pending_entry [entry_hello]
        \<lparr> pending_id = pendingId 2000, pending_content = ''second'', pending_timestamp = ''t2'' \<rparr>,
      pending_entry [entry_hello]
        \<lparr> pending_id = pendingId 3000, pending_content = ''third'', pending_timestamp = ''t3'' \<rparr>] \<and>
   subseq (pendingMessages (client_state (run events_mixed))) (submitted events_mixed)"
proof -
  have ne: "pendingId 2000 \<noteq> pendingId 1000"
    by (simp add: pendingId_def show_nat.simps)
  have p: "pendingMessages (client_state (run events_mixed)) =
     [\<lparr> pending_id = pendingId 2000, pending_content = ''second'', pending_timestamp = ''t2'' \<rparr>,
      \<lparr> pending_id = pendingId 3000, pending_content = ''third'', pending_timestamp = ''t3'' \<rparr>]"
    and s: "serverMessages (client_state (run events_mixed)) = [entry_hello]"
    using ne by (simp_all add: events_mixed_def polling_defs)
  have u: "submitted events_mixed =
     [\<lparr> pending_id = pendingId 1000, pending_content = ''first'', pending_timestamp = ''t1'' \<rparr>,
      \<lparr> pending_id = pendingId 2000, pending_content = ''second'', pending_timestamp = ''t2'' \<rparr>,
      \<lparr> pending_id = pendingId 3000, pending_content = ''third'', pending_timestamp = ''t3'' \<rparr>]"
    by (simp add: events_mixed_def)
  note d = displayed_sequence [of events_mixed]
  from d [THEN conjunct1] have m: "messages (client_state (run events_mixed)) =
     [entry_hello,
      pending_entry [entry_hello]
        \<lparr> pending_id = pendingId 2000, pending_content = ''second'', pending_timestamp = ''t2'' \<rparr>,
      pending_entry [entry_hello]
        \<lparr> pending_id = pendingId 3000, pending_content = ''third'', pending_timestamp = ''t3'' \<rparr>]"
    by (simp add: p s)
  from d [THEN conjunct2, THEN conjunct1] p u m show ?thesis by (intro conjI)
qed

section \<open>Properties of the file tree\<close>

lemma set_insert_by: "set (insert_by cmp x xs) = insert x (set xs)"
  by (induction xs) auto

lemma set_js_sort: "set (js_sort cmp xs) = set xs"
  by (induction xs) (simp_all add: js_sort_def set_insert_by)

lemma sorted_insert_by:
  assumes tot: "\<And>a b. cmp a b \<le> 0 \<or> cmp b a \<le> 0"
    and trans: "\<And>a b c. cmp a b \<le> 0 \<Longrightarrow> cmp b c \<le> 0 \<Longrightarrow> cmp a c \<le> 0"
    and "sorted_wrt (\<lambda>a b. cmp a b \<le> 0) xs"
  shows "sorted_wrt (\<lambda>a b. cmp a b \<le> 0) (insert_by cmp x xs)"
  using assms(3)
proof (induction xs)
  case Nil
  show ?case by simp
next
  case (Cons y ys)
  show ?case
  proof (cases "cmp x y \<le> 0")
    case True
    with Cons.prems trans show ?thesis by auto
  next
    case False
    with tot [of x y] have "cmp y x \<le> 0" by simp
    with False Cons show ?thesis by (auto simp: set_insert_by)
  qed
qed

lemma sorted_js_sort:
  assumes "\<And>a b. cmp a b \<le> 0 \<or> cmp b a \<le> 0"
    and "\<And>a b c. cmp a b \<le> 0 \<Longrightarrow> cmp b c \<le> 0 \<Longrightarrow> cmp a c \<le> 0"
  shows "sorted_wrt (\<lambda>a b. cmp a b \<le> 0) (js_sort cmp xs)"
proof (induction xs)
  case Nil
  show ?case by (simp add: js_sort_def)
next
  case (Cons x xs)
  have "js_sort cmp (x # xs) = insert_by cmp x (js_sort cmp xs)" by (simp add: js_sort_def)
  with Cons sorted_insert_by [of cmp, OF assms] show ?case by simp
qed

lemma compare_nodes_total:
  assumes "consistent lc"
  shows "compare_nodes lc a b \<le> 0 \<or> compare_nodes lc b a \<le> 0"
  using assms by (auto simp: compare_nodes_def consistent_def)

lemma compare_nodes_trans:
  assumes "consistent lc" "compare_nodes lc a b \<le> 0" "compare_nodes lc b c \<le> 0"
  shows "compare_nodes lc a c \<le> 0"
proof -
  from assms(1) have t: "\<And>x y z. lc x y \<le> 0 \<Longrightarrow> lc y z \<le> 0 \<Longrightarrow> lc x z \<le> 0"
    unfolding consistent_def by blast
  show ?thesis
    using assms(2,3) t [of "name a" "name b" "name c"]
    by (auto simp: compare_nodes_def split: if_splits)
qed

lemma compare_nodes_le_iff:
  "compare_nodes lc a b \<le> 0 \<longleftrightarrow>
     (ftype a = Directory \<or> ftype b = File) \<and> (ftype a = ftype b \<longrightarrow> lc (name a) (name b) \<le> 0)"
  by (cases "ftype a"; cases "ftype b") (simp_all add: compare_nodes_def)

lemma siblings_ordered_js_sort:
  assumes "consistent lc"
  shows "siblings_ordered lc (js_sort (compare_nodes lc) xs)"
proof -
  have "sorted_wrt (\<lambda>a b. compare_nodes lc a b \<le> 0) (js_sort (compare_nodes lc) xs)"
    using compare_nodes_total [OF assms] compare_nodes_trans [OF assms]
    by (rule sorted_js_sort)
  then show ?thesis by (simp add: siblings_ordered_def compare_nodes_le_iff)
qed

lemma forest_levels_le: "forest_levels xs \<le> k \<longleftrightarrow> (\<forall>x \<in> set xs. levels x \<le> k)"
  by (induction xs) (auto simp: forest_levels_def)

lemma those_map_SomeD:
  "those (map g xs) = Some ys \<Longrightarrow> y \<in> set ys \<Longrightarrow> \<exists>x \<in> set xs. g x = Some y"
  by (induction xs arbitrary: ys) (auto split: option.splits)

lemma those_map_SomeI:
  "(\<And>x. x \<in> set xs \<Longrightarrow> \<exists>y. g x = Some y) \<Longrightarrow> \<exists>ys. those (map g xs) = Some ys"
  by (induction xs) (auto split: option.splits)

text \<open>The nodes of a result, one for each listed entry.\<close>

lemma buildNode_nodes:
  assumes "buildNode (Suc fuel) listFiles lc m p d = Some t"
    and "\<not> depth_exceeds d m" and "listFiles p = Inr files" and "x \<in> set t"
  shows "\<exists>f \<in> set files.
           (f_type f = Directory \<and>
            (\<exists>ch. buildNode fuel listFiles lc m (f_path f) (next_depth d) = Some ch \<and>
                  x = make_node f (Some ch))) \<or>
           (f_type f \<noteq> Directory \<and> x = make_node f None)"
proof -
  let ?g = "\<lambda>f. if f_type f = Directory
                 then map_option (\<lambda>ch. make_node f (Some ch))
                        (buildNode fuel listFiles lc m (f_path f) (next_depth d))
                 else Some (make_node f None)"
  from assms(1-3) obtain ys where ys: "those (map ?g files) = Some ys"
    and t: "t = js_sort (compare_nodes lc) ys"
    by auto
  from assms(4) t have "x \<in> set ys" by (simp add: set_js_sort)
  from those_map_SomeD [OF ys this] obtain f where "f \<in> set files" "?g f = Some x" by blast
  then show ?thesis by (auto split: if_splits)
qed

lemma buildNode_empty:
  assumes "buildNode (Suc fuel) listFiles lc m p d = Some t"
    and "depth_exceeds d m \<or> (\<exists>x. listFiles p = Inl x)"
  shows "t = []"
  using assms by (auto split: if_splits)

lemma levels_make_node:
  "levels (make_node f None) = 1"
  "levels (make_node f (Some ch)) = 1 + forest_levels ch"
  by (simp_all add: make_node_def forest_levels_def)

lemma floor_bound:
  fixes q :: rat
  assumes "q < 2 ^ 53" "\<not> q < of_int d"
  shows "d \<le> \<lfloor>q\<rfloor>" "d < 2 ^ 53" "next_depth d = d + 1"
proof -
  from assms(2) show 1: "d \<le> \<lfloor>q\<rfloor>" by (simp add: le_floor_iff)
  have "\<lfloor>q\<rfloor> < 2 ^ 53" using assms(1) by (simp add: floor_less_iff)
  with 1 show 2: "d < 2 ^ 53" by linarith
  then show "next_depth d = d + 1" by (simp add: next_depth_def)
qed

lemma buildNode_returns:
  fixes q :: rat
  assumes "q < 2 ^ 53"
  shows "nat (\<lfloor>q\<rfloor> + 1 - d) < fuel \<Longrightarrow> \<exists>t. buildNode fuel listFiles lc (Finite q) p d = Some t"
proof (induction fuel arbitrary: p d)
  case 0
  then show ?case by simp
next
  case (Suc fuel)
  show ?case
  proof (cases "q < of_int d")
    case True
    then show ?thesis by simp
  next
    case False
    note fb = floor_bound [OF assms False]
    show ?thesis
    proof (cases "listFiles p")
      case (Inl x)
      with False show ?thesis by simp
    next
      case (Inr files)
      let ?g = "\<lambda>f. if f_type f = Directory
                 then map_option (\<lambda>ch. make_node f (Some ch))
                        (buildNode fuel listFiles lc (Finite q) (f_path f) (next_depth d))
                 else Some (make_node f None)"
      have "\<exists>y. ?g f = Some y" for f
      proof (cases "f_type f = Directory")
        case True
        from Suc.prems fb(1) have "nat (\<lfloor>q\<rfloor> + 1 - (d + 1)) < fuel" by linarith
        from Suc.IH [OF this, of "f_path f"] True show ?thesis by (auto simp: fb(3))
      next
        case False
        then show ?thesis by simp
      qed
      then have "\<exists>ys. those (map ?g files) = Some ys" by (intro those_map_SomeI) blast
      with False Inr show ?thesis by auto
    qed
  qed
qed

lemma levels_buildNode:
  fixes q :: rat
  assumes "q < 2 ^ 53"
  shows "buildNode fuel listFiles lc (Finite q) p d = Some t \<Longrightarrow>
         forest_levels t \<le> nat (\<lfloor>q\<rfloor> + 1 - d)"
proof (induction fuel arbitrary: p d t)
  case 0
  then show ?case by simp
next
  case (Suc fuel)
  show ?case
  proof (cases "q < of_int d \<or> (\<exists>x. listFiles p = Inl x)")
    case True
    with Suc.prems have "t = []" by (intro buildNode_empty [OF Suc.prems]) simp
    then show ?thesis by (simp add: forest_levels_def)
  next
    case False
    then have ne: "\<not> q < of_int d" and "\<exists>files. listFiles p = Inr files"
      by (auto intro: sum.exhaust [of "listFiles p"])
    then obtain files where files: "listFiles p = Inr files" by blast
    note fb = floor_bound [OF assms ne]
    have "levels x \<le> nat (\<lfloor>q\<rfloor> + 1 - d)" if "x \<in> set t" for x
    proof -
      from buildNode_nodes [OF Suc.prems _ files that] ne
      obtain f where
        "(f_type f = Directory \<and>
            (\<exists>ch. buildNode fuel listFiles lc (Finite q) (f_path f) (next_depth d) = Some ch \<and>
                  x = make_node f (Some ch))) \<or>
           (f_type f \<noteq> Directory \<and> x = make_node f None)"
        by auto
      then show ?thesis
      proof (elim disjE conjE exE)
        fix ch
        assume "buildNode fuel listFiles lc (Finite q) (f_path f) (next_depth d) = Some ch"
          and x: "x = make_node f (Some ch)"
        from Suc.IH [OF this(1)] have "forest_levels ch \<le> nat (\<lfloor>q\<rfloor> + 1 - (d + 1))"
          by (simp add: fb(3))
        with fb(1) show ?thesis by (simp add: x levels_make_node)
      next
        assume "x = make_node f None"
        with fb(1) show ?thesis by (simp add: levels_make_node)
      qed
    qed
    then show ?thesis by (simp add: forest_levels_le)
  qed
qed

lemma limit_children:
  fixes q :: rat
  assumes "q < 2 ^ 53"
    and "buildNode fuel listFiles lc (Finite q) p \<lfloor>q\<rfloor> = Some t"
    and "x \<in> set t" and "ftype x = Directory"
  shows "children x = Some []"
proof (cases fuel)
  case 0
  with assms(2) show ?thesis by simp
next
  case (Suc n)
  have ne: "\<not> depth_exceeds \<lfloor>q\<rfloor> (Finite q)" by (simp add: not_less)
  then have ne': "\<not> q < of_int \<lfloor>q\<rfloor>" by simp
  note fb = floor_bound [OF assms(1) ne']
  show ?thesis
  proof (cases "listFiles p")
    case (Inl e)
    with assms(2,3) Suc show ?thesis by (auto split: if_splits)
  next
    case (Inr files)
    from buildNode_nodes [OF assms(2) [unfolded Suc] ne Inr assms(3)]
    obtain f where
      "(f_type f = Directory \<and>
          (\<exists>ch. buildNode n listFiles lc (Finite q) (f_path f) (next_depth \<lfloor>q\<rfloor>) = Some ch \<and>
                x = make_node f (Some ch))) \<or>
         (f_type f \<noteq> Directory \<and> x = make_node f None)"
      by auto
    then show ?thesis
    proof (elim disjE conjE exE)
      fix ch
      assume b: "buildNode n listFiles lc (Finite q) (f_path f) (next_depth \<lfloor>q\<rfloor>) = Some ch"
        and x: "x = make_node f (Some ch)"
      have "depth_exceeds (\<lfloor>q\<rfloor> + 1) (Finite q)" by simp linarith
      with b have "ch = []" by (cases n) (simp_all add: fb(3))
      with x show ?thesis by (simp add: make_node_def)
    next
      assume "f_type f \<noteq> Directory" "x = make_node f None"
      with assms(4) show ?thesis by (simp add: make_node_def)
    qed
  qed
qed

lemma ordered_buildNode:
  assumes "consistent lc"
  shows "buildNode fuel listFiles lc m p d = Some t \<Longrightarrow> forest_ordered lc t"
proof (induction fuel arbitrary: p d t)
  case 0
  then show ?case by simp
next
  case (Suc fuel)
  show ?case
  proof (cases "depth_exceeds d m \<or> (\<exists>x. listFiles p = Inl x)")
    case True
    from buildNode_empty [OF Suc.prems True]
    show ?thesis by (simp add: forest_ordered_def siblings_ordered_def)
  next
    case False
    then have ne: "\<not> depth_exceeds d m" and "\<exists>files. listFiles p = Inr files"
      by (auto intro: sum.exhaust [of "listFiles p"])
    then obtain files where files: "listFiles p = Inr files" by blast
    let ?g = "\<lambda>f. if f_type f = Directory
                 then map_option (\<lambda>ch. make_node f (Some ch))
                        (buildNode fuel listFiles lc m (f_path f) (next_depth d))
                 else Some (make_node f None)"
    from Suc.prems ne files obtain ys where "those (map ?g files) = Some ys"
      and t: "t = js_sort (compare_nodes lc) ys"
      by auto
    have "tree_ordered lc x" if "x \<in> set t" for x
    proof -
      from buildNode_nodes [OF Suc.prems ne files that]
      obtain f where
        "(f_type f = Directory \<and>
            (\<exists>ch. buildNode fuel listFiles lc m (f_path f) (next_depth d) = Some ch \<and>
                  x = make_node f (Some ch))) \<or>
           (f_type f \<noteq> Directory \<and> x = make_node f None)"
        by auto
      then show ?thesis
      proof (elim disjE conjE exE)
        fix ch
        assume "buildNode fuel listFiles lc m (f_path f) (next_depth d) = Some ch"
          and x: "x = make_node f (Some ch)"
        from Suc.IH [OF this(1)] show ?thesis by (simp add: x make_node_def forest_ordered_def)
      next
        assume "x = make_node f None"
        then show ?thesis by (simp add: make_node_def)
      qed
    qed
    with siblings_ordered_js_sort [OF assms, of ys] show ?thesis
      by (simp add: t forest_ordered_def)
  qed
qed

lemma consistent_code_unit_compare: "consistent code_unit_compare"
  by (auto simp: consistent_def code_unit_compare_def)

text \<open>
  On a volume that lists a directory under every path, a call whose guard never fires
  reaches every bound.
\<close>

lemma deep_volume_no_result:
  assumes step: "\<And>d. P d \<Longrightarrow> \<not> depth_exceeds d m \<and> P (next_depth d)"
  shows "P d \<Longrightarrow> buildNode fuel deep_volume lc m p d = None"
proof (induction fuel arbitrary: p d)
  case 0
  show ?case by simp
next
  case (Suc fuel)
  from step [OF Suc.prems] have "\<not> depth_exceeds d m" "P (next_depth d)" by simp_all
  with Suc.IH [OF this(2)] show ?case by (simp add: deep_volume_def)
qed

text \<open>
  C9, as stated, fails: \<^verbatim>\<open>maxDepth\<close> is a number, and for \<^verbatim>\<open>Infinity\<close> and
  \<^verbatim>\<open>NaN\<close> the guard \<^verbatim>\<open>depth > maxDepth\<close> is never true; nor is it for a finite
  value from \<open>2 ^ 53\<close> on, where \<^verbatim>\<open>depth + 1\<close> stops growing. On a volume that
  lists a directory under every path the call then returns for no bound on the nesting.
\<close>

theorem file_tree_unbounded_counterexample:
  "\<not> (\<exists>fuel t. buildNode fuel deep_volume code_unit_compare Pos_infinity ''/'' 0 = Some t) \<and>
   \<not> (\<exists>fuel t. buildNode fuel deep_volume code_unit_compare NaN ''/'' 0 = Some t) \<and>
   \<not> (\<exists>fuel t. buildNode fuel deep_volume code_unit_compare (Finite (2 ^ 53)) ''/'' 0 = Some t)"
proof -
  have 1: "buildNode fuel deep_volume code_unit_compare Pos_infinity ''/'' 0 = None" for fuel
    by (rule deep_volume_no_result [where P = "\<lambda>d. True"]) simp_all
  have 2: "buildNode fuel deep_volume code_unit_compare NaN ''/'' 0 = None" for fuel
    by (rule deep_volume_no_result [where P = "\<lambda>d. True"]) simp_all
  have 3: "buildNode fuel deep_volume code_unit_compare (Finite (2 ^ 53)) ''/'' 0 = None" for fuel
  proof (rule deep_volume_no_result [where P = "\<lambda>d. d \<le> 2 ^ 53"])
    fix d :: int
    assume "d \<le> 2 ^ 53"
    then show "\<not> depth_exceeds d (Finite (2 ^ 53)) \<and> next_depth d \<le> 2 ^ 53"
      by (simp add: next_depth_def not_less)
  qed simp
  from 1 2 3 show ?thesis by simp
qed

text \<open>
  C9 (amended): for every volume listing and every finite \<open>maxDepth\<close> below \<open>2 ^ 53\<close>,
  \<open>buildNode\<close> and \<open>buildFileTree\<close> return: a bound on the nesting above
  \<open>\<lfloor>maxDepth\<rfloor> + 1 - depth\<close> gives a result. For every \<open>maxDepth\<close>, a call at a depth
  greater than \<open>maxDepth\<close> returns the empty list. For the finite \<open>maxDepth\<close> below
  \<open>2 ^ 53\<close>, the trees a call at depth \<open>d\<close> returns have at most
  \<open>\<lfloor>maxDepth\<rfloor> + 1 - d\<close> levels, so those of \<open>buildFileTree\<close> have at most
  \<open>\<lfloor>maxDepth\<rfloor> + 1\<close>, and a directory listed at the depth limit has an empty list of
  children.
\<close>

theorem file_tree_depth_bounded:
  fixes q :: rat
  assumes "q < 2 ^ 53"
  shows "(nat (\<lfloor>q\<rfloor> + 1 - depth) < fuel \<longrightarrow>
            (\<exists>t. buildNode fuel listFiles lc (Finite q) p depth = Some t)) \<and>
         (\<exists>r. buildFileTree (nat (\<lfloor>q\<rfloor> + 1) + 1) volume lc p (Finite q) = Some r) \<and>
         (depth_exceeds depth maxDepth \<longrightarrow>
            buildNode (Suc fuel) listFiles lc maxDepth p depth = Some []) \<and>
         (\<forall>t. buildNode fuel listFiles lc (Finite q) p depth = Some t \<longrightarrow>
            forest_levels t \<le> nat (\<lfloor>q\<rfloor> + 1 - depth)) \<and>
         (\<forall>t. buildFileTree fuel volume lc p (Finite q) = Some (Inr t) \<longrightarrow>
            forest_levels t \<le> nat (\<lfloor>q\<rfloor> + 1)) \<and>
         (\<forall>t. buildNode fuel listFiles lc (Finite q) p \<lfloor>q\<rfloor> = Some t \<longrightarrow>
            (\<forall>x \<in> set t. ftype x = Directory \<longrightarrow> children x = Some []))"
proof -
  have a: "nat (\<lfloor>q\<rfloor> + 1 - depth) < fuel \<longrightarrow>
            (\<exists>t. buildNode fuel listFiles lc (Finite q) p depth = Some t)"
    using buildNode_returns [OF assms] by blast
  have b: "\<exists>r. buildFileTree (nat (\<lfloor>q\<rfloor> + 1) + 1) volume lc p (Finite q) = Some r"
  proof (cases volume)
    case (Inl x)
    then show ?thesis by (simp add: buildFileTree_def)
  next
    case (Inr l)
    from buildNode_returns [OF assms, of 0 "nat (\<lfloor>q\<rfloor> + 1) + 1" l lc p]
    obtain t where "buildNode (nat (\<lfloor>q\<rfloor> + 1) + 1) l lc (Finite q) p 0 = Some t" by auto
    with Inr show ?thesis by (simp add: buildFileTree_def)
  qed
  have c: "depth_exceeds depth maxDepth \<longrightarrow>
            buildNode (Suc fuel) listFiles lc maxDepth p depth = Some []"
    by simp
  have d: "\<forall>t. buildNode fuel listFiles lc (Finite q) p depth = Some t \<longrightarrow>
            forest_levels t \<le> nat (\<lfloor>q\<rfloor> + 1 - depth)"
    using levels_buildNode [OF assms] by blast
  have e: "\<forall>t. buildFileTree fuel volume lc p (Finite q) = Some (Inr t) \<longrightarrow>
            forest_levels t \<le> nat (\<lfloor>q\<rfloor> + 1)"
    using levels_buildNode [OF assms, where d = 0]
    by (auto simp: buildFileTree_def split: sum.splits)
  have f: "\<forall>t. buildNode fuel listFiles lc (Finite q) p \<lfloor>q\<rfloor> = Some t \<longrightarrow>
            (\<forall>x \<in> set t. ftype x = Directory \<longrightarrow> children x = Some [])"
    using limit_children [OF assms] by blast
  from a b c d e f show ?thesis by (intro conjI)
qed

lemma deep_tree:
  "buildFileTree 3 (Inr deep_volume) code_unit_compare ''/'' (Finite 1) =
     Some (Inr [FileInfo ''d'' Directory None ''/d/''
        (Some [FileInfo ''d'' Directory None ''/d/d/'' (Some [])])])"
  by code_simp

theorem file_tree_depth_bounded_witness:
  "(1::rat) < 2 ^ 53 \<and>
   buildNode 1 deep_volume code_unit_compare (Finite 1) ''/'' 2 = Some [] \<and>
   buildFileTree 3 (Inr deep_volume) code_unit_compare ''/'' (Finite 1) =
     Some (Inr [FileInfo ''d'' Directory None ''/d/''
            (Some [FileInfo ''d'' Directory None ''/d/d/'' (Some [])])]) \<and>
   forest_levels [FileInfo ''d'' Directory None ''/d/''
            (Some [FileInfo ''d'' Directory None ''/d/d/'' (Some [])])] \<le> 2"
proof -
  have h: "(1::rat) < 2 ^ 53" by simp
  have fl: "\<lfloor>1::rat\<rfloor> = 1" by simp
  note th = file_tree_depth_bounded [OF h, of 2 0 deep_volume code_unit_compare "''/''"
      "Inr deep_volume" "Finite 1"]
  note th3 = file_tree_depth_bounded [OF h, of 0 3 deep_volume code_unit_compare "''/''"
      "Inr deep_volume" "Finite 1"]
  from th have 1: "buildNode 1 deep_volume code_unit_compare (Finite 1) ''/'' 2 = Some []"
    by simp
  from th3 deep_tree have 2: "forest_levels [FileInfo ''d'' Directory None ''/d/''
            (Some [FileInfo ''d'' Directory None ''/d/d/'' (Some [])])] \<le> 2"
    by (simp only: fl) simp
  from h 1 2 deep_tree show ?thesis by (intro conjI)
qed

text \<open>
  C10: when \<^verbatim>\<open>localeCompare\<close> is a consistent comparison (total and transitive, as
  a collation is), every list of siblings in every tree \<open>buildNode\<close> or
  \<open>buildFileTree\<close> returns, the top-level list and the children of every directory,
  has its directories before its files and, within the directories and within the
  files, its names ascending under \<^verbatim>\<open>localeCompare\<close>. This holds for every
  \<open>maxDepth\<close>; for a finite \<open>maxDepth\<close> below \<open>2 ^ 53\<close> the tree is returned, and
  is in that order.
\<close>

theorem file_tree_sorted:
  assumes "consistent lc"
  shows "(\<forall>t. buildNode fuel listFiles lc maxDepth p depth = Some t \<longrightarrow> forest_ordered lc t) \<and>
         (\<forall>t. buildFileTree fuel volume lc p maxDepth = Some (Inr t) \<longrightarrow> forest_ordered lc t) \<and>
         (\<forall>q. q < 2 ^ 53 \<and> nat (\<lfloor>q\<rfloor> + 1 - depth) < fuel \<longrightarrow>
            (\<exists>t. buildNode fuel listFiles lc (Finite q) p depth = Some t \<and> forest_ordered lc t))"
proof -
  note o = ordered_buildNode [OF assms]
  have a: "\<forall>t. buildNode fuel listFiles lc maxDepth p depth = Some t \<longrightarrow> forest_ordered lc t"
    using o by blast
  have b: "\<forall>t. buildFileTree fuel volume lc p maxDepth = Some (Inr t) \<longrightarrow> forest_ordered lc t"
    using o by (auto simp: buildFileTree_def split: sum.splits)
  have c: "\<exists>t. buildNode fuel listFiles lc (Finite q) p depth = Some t \<and> forest_ordered lc t"
    if "q < 2 ^ 53" "nat (\<lfloor>q\<rfloor> + 1 - depth) < fuel" for q
  proof -
    from buildNode_returns [OF that] obtain t
      where "buildNode fuel listFiles lc (Finite q) p depth = Some t" by blast
    with o show ?thesis by blast
  qed
  from a b c show ?thesis by blast
qed

lemma small_tree:
  "buildFileTree 7 (Inr small_volume) code_unit_compare ''/'' (Finite 5) =
     Some (Inr [FileInfo ''lib'' Directory None ''/lib'' (Some []),
      FileInfo ''src'' Directory None ''/src''
        (Some [FileInfo ''m.ts'' File (Some 2) ''/src/m.ts'' None,
               FileInfo ''z.ts'' File (Some 1) ''/src/z.ts'' None]),
      FileInfo ''a.txt'' File (Some 5) ''/a.txt'' None,
      FileInfo ''b.txt'' File (Some 3) ''/b.txt'' None])"
  by code_simp

theorem file_tree_sorted_witness:
  "consistent code_unit_compare \<and>
   buildFileTree 7 (Inr small_volume) code_unit_compare ''/'' (Finite 5) =
     Some (Inr [FileInfo ''lib'' Directory None ''/lib'' (Some []),
          FileInfo ''src'' Directory None ''/src''
            (Some [FileInfo ''m.ts'' File (Some 2) ''/src/m.ts'' None,
                   FileInfo ''z.ts'' File (Some 1) ''/src/z.ts'' None]),
          FileInfo ''a.txt'' File (Some 5) ''/a.txt'' None,
          FileInfo ''b.txt'' File (Some 3) ''/b.txt'' None]) \<and>
   forest_ordered code_unit_compare
     [FileInfo ''lib'' Directory None ''/lib'' (Some []),
      FileInfo ''src'' Directory None ''/src''
        (Some [FileInfo ''m.ts'' File (Some 2) ''/src/m.ts'' None,
               FileInfo ''z.ts'' File (Some 1) ''/src/z.ts'' None]),
      FileInfo ''a.txt'' File (Some 5) ''/a.txt'' None,
      FileInfo ''b.txt'' File (Some 3) ''/b.txt'' None]"
proof -
  note c = consistent_code_unit_compare
  from file_tree_sorted [OF c, THEN conjunct2, of 7 "Inr small_volume" "''/''" "Finite 5"] small_tree
  have "forest_ordered code_unit_compare
     [FileInfo ''lib'' Directory None ''/lib'' (Some []),
      FileInfo ''src'' Directory None ''/src''
        (Some [FileInfo ''m.ts'' File (Some 2) ''/src/m.ts'' None,
               FileInfo ''z.ts'' File (Some 1) ''/src/z.ts'' None]),
      FileInfo ''a.txt'' File (Some 5) ''/a.txt'' None,
      FileInfo ''b.txt'' File (Some 3) ''/b.txt'' None]"
    by blast
  with c small_tree show ?thesis by (intro conjI)
qed

end
